theory Spec2Isabelle
  imports Complex_Main "HOL-Library.Multiset" "HOL-Library.Sublist"
    "HOL-Library.List_Lexorder" "HOL-Library.Product_Lexorder"
begin

section \<open>Texas Hold'em evaluator and Monte Carlo simulator (mainscript.py)\<close>

text \<open>
  A card is the Python tuple \<open>(rank, suit)\<close> of two unbounded integers. A hand rank is a
  Python tuple of integers of varying length; Python compares tuples lexicographically, a
  proper prefix being smaller, which is the order of \<open>HOL-Library.List_Lexorder\<close> on
  \<open>int list\<close>. The pairs \<open>(cnt, r)\<close> that the evaluator sorts are compared the same way
  (\<open>HOL-Library.Product_Lexorder\<close>).
\<close>

type_synonym card = "int \<times> int"
type_synonym hand_rank = "int list"

datatype error = IndexError | ZeroDivisionError

subsection \<open>Python built-ins used by the script\<close>

text \<open>
  \<open>sorted(xs, key=k, reverse=True)\<close> and \<open>xs.sort(key=k, reverse=True)\<close>: a stable sort in
  descending key order; elements with equal keys keep their original relative order.
\<close>

definition sorted_desc :: "('a \<Rightarrow> 'k::linorder) \<Rightarrow> 'a list \<Rightarrow> 'a list" where
  "sorted_desc key xs = rev (sort_key key (rev xs))"

text \<open>
  A \<open>dict\<close> keeps its keys in insertion order: an association list in which a key occurs
  once. \<open>dict_set d k v\<close> is \<open>d[k] = v\<close>.
\<close>

fun dict_set :: "('k \<times> 'v) list \<Rightarrow> 'k \<Rightarrow> 'v \<Rightarrow> ('k \<times> 'v) list" where
  "dict_set [] k v = [(k, v)]"
| "dict_set ((k', v') # d) k v =
     (if k' = k then (k, v) # d else (k', v') # dict_set d k v)"

text \<open>Slices \<open>xs[:k]\<close> and \<open>xs[k:]\<close>; a negative \<open>k\<close> counts from the end.\<close>

definition slice_to :: "int \<Rightarrow> 'a list \<Rightarrow> 'a list" where
  "slice_to k xs = (if 0 \<le> k then take (nat k) xs else take (length xs - nat (- k)) xs)"

definition slice_from :: "int \<Rightarrow> 'a list \<Rightarrow> 'a list" where
  "slice_from k xs = (if 0 \<le> k then drop (nat k) xs else drop (length xs - nat (- k)) xs)"

subsection \<open>rank_5cards\<close>

text \<open>
  The loop \<open>for r in ranks: if r not in rank_counts: rank_counts[r] = 0; rank_counts[r] += 1\<close>.
  After the first statement the key is present, so the lookup of the second cannot fail.
\<close>

definition count_rank :: "int \<Rightarrow> (int \<times> int) list \<Rightarrow> (int \<times> int) list" where
  "count_rank r rank_counts =
     (let rc = (if map_of rank_counts r = None then dict_set rank_counts r 0 else rank_counts)
      in case map_of rc r of Some n \<Rightarrow> dict_set rc r (n + 1) | None \<Rightarrow> rc)"

text \<open>The loop \<open>for r in ranks: if r not in distinct_ranks_desc: distinct_ranks_desc.append(r)\<close>.\<close>

definition add_distinct :: "int \<Rightarrow> int list \<Rightarrow> int list" where
  "add_distinct r distinct_ranks_desc =
     (if r \<notin> set distinct_ranks_desc then distinct_ranks_desc @ [r] else distinct_ranks_desc)"

text \<open>
  The loop over \<open>start_index\<close> with its \<open>break\<close>; it returns \<open>(is_straight, top_straight_rank)\<close>.
  Every window \<open>seq\<close> has five elements, because \<open>start_index + 5 \<le> len(distinct_ranks_desc)\<close>.
\<close>

fun straight_loop :: "int list \<Rightarrow> nat list \<Rightarrow> bool \<times> int" where
  "straight_loop d [] = (False, 0)"
| "straight_loop d (start_index # rest) =
     (let seq = take 5 (drop start_index d)
      in if seq ! 0 - seq ! 4 = 4 then (True, seq ! 0) else straight_loop d rest)"

definition check_straight :: "int list \<Rightarrow> bool \<times> int" where
  "check_straight d =
     (if 5 \<le> length d then
        (let (is_straight, top_straight_rank) = straight_loop d [0..<length d - 4]
         in if \<not> is_straight then
              (if 14 \<in> set d \<and> 5 \<in> set d \<and> 4 \<in> set d \<and> 3 \<in> set d \<and> 2 \<in> set d
               then (True, 5) else (is_straight, top_straight_rank))
            else (is_straight, top_straight_rank))
      else (False, 0))"

text \<open>
  The kicker loops: \<open>for i in range(1, len(count_rank_pairs)): for _ in range(cnt):
  kickers.append(rnk)\<close>, over the pairs after the first.
\<close>

definition kickers_of :: "(int \<times> int) list \<Rightarrow> int list" where
  "kickers_of pairs = concat (map (\<lambda>(cnt, rnk). replicate (nat cnt) rnk) pairs)"

text \<open>
  The part of \<open>rank_5cards\<close> after the straight-flush test. Every index expression of
  the source that can raise \<open>IndexError\<close> is a \<open>case\<close> with that branch.
\<close>

definition rank_by_counts ::
  "int list \<Rightarrow> bool \<Rightarrow> bool \<Rightarrow> int \<Rightarrow> (int \<times> int) list \<Rightarrow> error + hand_rank" where
  "rank_by_counts ranks is_flush is_straight top_straight_rank count_rank_pairs =
     (let counts_only = map fst count_rank_pairs
      in case count_rank_pairs of
           [] \<Rightarrow> Inl IndexError
         | (c0, r0) # rest \<Rightarrow>
             if c0 = 4 then
               (case rest of [] \<Rightarrow> Inl IndexError | (c1, kicker) # _ \<Rightarrow> Inr [8, r0, kicker])
             else if c0 = 3 then
               (if 1 < length counts_only \<and> counts_only ! 1 = 2
                then Inr [7, r0, snd (count_rank_pairs ! 1)]
                else Inr ([4, r0] @ sorted_desc id (kickers_of rest)))
             else if c0 = 2 then
               (if 1 < length counts_only \<and> counts_only ! 1 = 2
                then (case rest of
                        (c1, r1) # (c2, kicker) # _ \<Rightarrow>
                          (let (pair1_rank, pair2_rank) = (if r0 < r1 then (r1, r0) else (r0, r1))
                           in Inr [3, pair1_rank, pair2_rank, kicker])
                      | _ \<Rightarrow> Inl IndexError)
                else (case sorted_desc id (kickers_of rest) of
                        k0 # k1 # k2 # _ \<Rightarrow> Inr [2, r0, k0, k1, k2]
                      | _ \<Rightarrow> Inl IndexError))
             else if is_flush then
               (case ranks of
                  a # b # c # d # e # _ \<Rightarrow> Inr [6, a, b, c, d, e]
                | _ \<Rightarrow> Inl IndexError)
             else if is_straight then Inr [5, top_straight_rank]
             else
               (case ranks of
                  a # b # c # d # e # _ \<Rightarrow> Inr [1, a, b, c, d, e]
                | _ \<Rightarrow> Inl IndexError))"

text \<open>
  The body of \<open>rank_5cards\<close> from the rank counting on: it reads the cards only through
  \<open>ranks\<close> (the ranks in descending order) and \<open>is_flush\<close>.
\<close>

definition rank_of_ranks :: "int list \<Rightarrow> bool \<Rightarrow> error + hand_rank" where
  "rank_of_ranks ranks is_flush =
     (let rank_counts = fold count_rank ranks [];
          distinct_ranks_desc = fold add_distinct ranks [];
          (is_straight, top_straight_rank) = check_straight distinct_ranks_desc
      in if is_flush \<and> is_straight then Inr [9, top_straight_rank]
         else rank_by_counts ranks is_flush is_straight top_straight_rank
                (sorted_desc id (map (\<lambda>(r, cnt). (cnt, r)) rank_counts)))"

text \<open>\<open>suits[0]\<close> raises \<open>IndexError\<close> on an empty hand.\<close>

definition rank_5cards :: "card list \<Rightarrow> error + hand_rank" where
  "rank_5cards cards5 =
     (let sorted_cards = sorted_desc fst cards5;
          ranks = map fst sorted_cards;
          suits = map snd sorted_cards
      in case suits of
           [] \<Rightarrow> Inl IndexError
         | s0 # _ \<Rightarrow> rank_of_ranks ranks (count_list suits s0 = 5))"

subsection \<open>rank_7cards\<close>

text \<open>
  The five nested loops over \<open>i < j < k < l < m\<close>, in the order in which they build
  \<open>combo5\<close>. Every index is below \<open>n\<close>, so no access is out of range; for \<open>n < 5\<close> the
  outer range is empty.
\<close>

definition combos5 :: "'a list \<Rightarrow> 'a list list" where
  "combos5 cards7 =
     (let n = length cards7 in
      concat (map (\<lambda>i.
        concat (map (\<lambda>j.
          concat (map (\<lambda>k.
            concat (map (\<lambda>l.
              map (\<lambda>m. [cards7 ! i, cards7 ! j, cards7 ! k, cards7 ! l, cards7 ! m])
                [l + 1..<n])
              [k + 1..<n - 1]))
            [j + 1..<n - 2]))
          [i + 1..<n - 3]))
        [0..<n - 4]))"

fun best_of :: "card list list \<Rightarrow> hand_rank \<Rightarrow> error + hand_rank" where
  "best_of [] best = Inr best"
| "best_of (combo5 # rest) best =
     (case rank_5cards combo5 of
        Inl e \<Rightarrow> Inl e
      | Inr r5 \<Rightarrow> best_of rest (if r5 > best then r5 else best))"

definition rank_7cards :: "card list \<Rightarrow> error + hand_rank" where
  "rank_7cards cards7 = best_of (combos5 cards7) [0]"

subsection \<open>The generator state and list objects\<close>

text \<open>
  The module-level \<open>_seed\<close> and the list objects that the script mutates in place live in
  a store. A list object is an address; \<open>heap\<close> gives its current contents, and every
  address below \<open>nxt\<close> is an existing object. Arguments of the functions below that the
  script may alias or mutate are addresses. A list that an expression builds and that
  is never mutated afterwards (a slice, a concatenation, the result of \<open>sorted\<close>) is
  modelled by its value; \<open>rank_5cards\<close> and \<open>rank_7cards\<close> only read their argument, so
  they take its value.
\<close>

type_synonym addr = nat

record store =
  heap :: "addr \<Rightarrow> card list"
  nxt :: addr
  seed :: int

text \<open>A new list object with contents \<open>xs\<close>: \<open>[]\<close>, or the copy \<open>base_deck[:]\<close>.\<close>

definition new_list :: "card list \<Rightarrow> store \<Rightarrow> addr \<times> store" where
  "new_list xs st = (nxt st, st\<lparr>heap := (heap st)(nxt st := xs), nxt := Suc (nxt st)\<rparr>)"

text \<open>The store when the module has been loaded: \<open>_seed = 5674832\<close>, and no list object yet.\<close>

definition initial_store :: store where
  "initial_store = \<lparr>heap = (\<lambda>_. []), nxt = 0, seed = 5674832\<rparr>"

text \<open>\<open>lst.append(c)\<close> on the object at \<open>a\<close>.\<close>

definition list_append :: "addr \<Rightarrow> card \<Rightarrow> store \<Rightarrow> store" where
  "list_append a c st = st\<lparr>heap := (heap st)(a := heap st a @ [c])\<rparr>"

text \<open>
  \<open>lst[i], lst[j] = lst[j], lst[i]\<close>: the right-hand side is evaluated first, then
  \<open>lst[i]\<close> and \<open>lst[j]\<close> are assigned in this order.
\<close>

definition list_swap :: "addr \<Rightarrow> nat \<Rightarrow> nat \<Rightarrow> store \<Rightarrow> store" where
  "list_swap a i j st =
     (let lst = heap st a
      in st\<lparr>heap := (heap st)(a := (lst[i := lst ! j])[j := lst ! i])\<rparr>)"

subsection \<open>rand_int and shuffle_in_place\<close>

text \<open>
  \<open>_seed\<close> is assigned before the remainder is taken, so the state has advanced when
  \<open>% 0\<close> raises \<open>ZeroDivisionError\<close>. Python's \<open>%\<close> takes the sign of the divisor, as
  \<open>mod\<close> on \<open>int\<close> does.
\<close>

definition rand_int :: "int \<Rightarrow> int \<Rightarrow> store \<Rightarrow> (error + int) \<times> store" where
  "rand_int low high st =
     (let st' = st\<lparr>seed := (1103515245 * seed st + 12345) mod 2147483648\<rparr>
      in if high - low + 1 = 0 then (Inl ZeroDivisionError, st')
         else (Inr (low + seed st' mod (high - low + 1)), st'))"

text \<open>
  The loop \<open>for i in range(n - 1, 0, -1)\<close> over the indices \<open>n - 1, \<dots>, 1\<close>. Here
  \<open>0 \<le> j \<le> i < n\<close>, so the two index accesses are in range.
\<close>

fun shuffle_loop :: "addr \<Rightarrow> nat list \<Rightarrow> store \<Rightarrow> (error + unit) \<times> store" where
  "shuffle_loop lst [] st = (Inr (), st)"
| "shuffle_loop lst (i # rest) st =
     (case rand_int 0 (int i) st of
        (Inl e, st') \<Rightarrow> (Inl e, st')
      | (Inr j, st') \<Rightarrow> shuffle_loop lst rest (list_swap lst i (nat j) st'))"

definition shuffle_in_place :: "addr \<Rightarrow> store \<Rightarrow> (error + unit) \<times> store" where
  "shuffle_in_place lst st =
     (let n = length (heap st lst) in shuffle_loop lst (rev [1..<n]) st)"

text \<open>
  A client that issues a sequence of \<open>rand_int(low, high)\<close> calls and collects the
  returned integers; it stops at the first call that raises.
\<close>

fun run_queries :: "(int \<times> int) list \<Rightarrow> store \<Rightarrow> (error + int list) \<times> store" where
  "run_queries [] st = (Inr [], st)"
| "run_queries ((low, high) # rest) st =
     (case rand_int low high st of
        (Inl e, st') \<Rightarrow> (Inl e, st')
      | (Inr v, st') \<Rightarrow>
          (case run_queries rest st' of
             (Inl e, st'') \<Rightarrow> (Inl e, st'')
           | (Inr vs, st'') \<Rightarrow> (Inr (v # vs), st'')))"

subsection \<open>make_deck and remove_cards_from_deck\<close>

definition make_deck :: "card list" where
  "make_deck = concat (map (\<lambda>rank. map (\<lambda>suit. (rank, suit)) [0..3]) [2..14])"

text \<open>
  \<open>remove_cards_from_deck\<close> reads both arguments and returns a new list; \<open>set_remove\<close> is
  the Python set of the cards to remove.
\<close>

definition remove_cards_from_deck :: "card list \<Rightarrow> card list \<Rightarrow> card list" where
  "remove_cards_from_deck deck cards_to_remove =
     (let set_remove = set cards_to_remove
      in fold (\<lambda>c new_deck. if c \<notin> set_remove then new_deck @ [c] else new_deck) deck [])"

subsection \<open>simulate_win_probability\<close>

text \<open>
  The loop \<open>for _opp in range(num_opponents)\<close>: each opponent takes the slice \<open>sim_deck[:2]\<close>,
  which is shorter than two cards when the deck runs out.
\<close>

fun deal_opponents :: "nat \<Rightarrow> card list \<Rightarrow> card list list \<Rightarrow> card list list \<times> card list" where
  "deal_opponents 0 sim_deck opp_holes = (opp_holes, sim_deck)"
| "deal_opponents (Suc n) sim_deck opp_holes =
     (let hole = slice_to 2 sim_deck
      in deal_opponents n (slice_from 2 sim_deck) (opp_holes @ [hole]))"

text \<open>
  The first half of a trial: copy \<open>base_deck\<close>, shuffle the copy, complete the board and
  deal the opponents. It returns \<open>(full_community, opp_holes)\<close>.
\<close>

definition deal_trial ::
  "addr \<Rightarrow> int \<Rightarrow> addr \<Rightarrow> store \<Rightarrow> (error + card list \<times> card list list) \<times> store" where
  "deal_trial known_community num_opponents base_deck st =
     (let (sim_deck, st1) = new_list (heap st base_deck) st
      in case shuffle_in_place sim_deck st1 of
           (Inl e, st2) \<Rightarrow> (Inl e, st2)
         | (Inr _, st2) \<Rightarrow>
             (let community_needed = 5 - int (length (heap st2 known_community));
                  community_rest = slice_to community_needed (heap st2 sim_deck);
                  sim_deck' = slice_from community_needed (heap st2 sim_deck);
                  full_community = heap st2 known_community @ community_rest;
                  (opp_holes, _) = deal_opponents (nat num_opponents) sim_deck' []
              in (Inr (full_community, opp_holes), st2)))"

text \<open>The loop \<open>for oh in opp_holes\<close> with its counters \<open>(best_count, same_count)\<close>.\<close>

fun compare_opponents ::
  "card list list \<Rightarrow> card list \<Rightarrow> hand_rank \<Rightarrow> int \<times> int \<Rightarrow> error + int \<times> int" where
  "compare_opponents [] full_community player_rank counts = Inr counts"
| "compare_opponents (oh # rest) full_community player_rank (best_count, same_count) =
     (case rank_7cards (oh @ full_community) of
        Inl e \<Rightarrow> Inl e
      | Inr opp_rank \<Rightarrow>
          compare_opponents rest full_community player_rank
            (if opp_rank > player_rank then (best_count + 1, same_count)
             else if opp_rank = player_rank then (best_count, same_count + 1)
             else (best_count, same_count)))"

text \<open>
  The second half of a trial: rank the player's seven cards, compare every opponent, and
  update the counters \<open>(wins, ties, total)\<close>.
\<close>

definition showdown ::
  "card list \<Rightarrow> card list \<Rightarrow> card list list \<Rightarrow> int \<times> int \<times> int \<Rightarrow> error + int \<times> int \<times> int" where
  "showdown player_cards full_community opp_holes counters =
     (case counters of (wins, ties, total_count) \<Rightarrow>
        (let player_7 = player_cards @ full_community
         in case rank_7cards player_7 of
              Inl e \<Rightarrow> Inl e
            | Inr player_rank \<Rightarrow>
                (case compare_opponents opp_holes full_community player_rank (0, 0) of
                   Inl e \<Rightarrow> Inl e
                 | Inr (best_count, same_count) \<Rightarrow>
                     Inr (if best_count = 0
                          then (if same_count = 0 then (wins + 1, ties, total_count + 1)
                                else (wins, ties + 1, total_count + 1))
                          else (wins, ties, total_count + 1)))))"

definition run_trial ::
  "addr \<Rightarrow> addr \<Rightarrow> int \<Rightarrow> addr \<Rightarrow> int \<times> int \<times> int \<Rightarrow> store
     \<Rightarrow> (error + int \<times> int \<times> int) \<times> store" where
  "run_trial player_cards known_community num_opponents base_deck counters st =
     (case deal_trial known_community num_opponents base_deck st of
        (Inl e, st') \<Rightarrow> (Inl e, st')
      | (Inr (full_community, opp_holes), st') \<Rightarrow>
          (showdown (heap st' player_cards) full_community opp_holes counters, st'))"

text \<open>The loop \<open>for _ in range(sims)\<close>; an exception leaves it.\<close>

fun sim_loop ::
  "nat \<Rightarrow> addr \<Rightarrow> addr \<Rightarrow> int \<Rightarrow> addr \<Rightarrow> int \<times> int \<times> int \<Rightarrow> store
     \<Rightarrow> (error + int \<times> int \<times> int) \<times> store" where
  "sim_loop 0 player_cards known_community num_opponents base_deck counters st =
     (Inr counters, st)"
| "sim_loop (Suc n) player_cards known_community num_opponents base_deck counters st =
     (case run_trial player_cards known_community num_opponents base_deck counters st of
        (Inl e, st') \<Rightarrow> (Inl e, st')
      | (Inr counters', st') \<Rightarrow>
          sim_loop n player_cards known_community num_opponents base_deck counters' st')"

text \<open>
  The statements before the trial loop: \<open>used_cards\<close> and \<open>base_deck\<close> are new list
  objects filled by \<open>append\<close>; \<open>c not in used_cards\<close> is list membership. It returns
  the address of \<open>base_deck\<close>.
\<close>

definition build_base_deck :: "addr \<Rightarrow> addr \<Rightarrow> addr \<Rightarrow> store \<Rightarrow> addr \<times> store" where
  "build_base_deck player_cards known_community deck st =
     (let (used_cards, st1) = new_list [] st;
          st2 = fold (list_append used_cards) (heap st1 player_cards) st1;
          st3 = fold (list_append used_cards) (heap st2 known_community) st2;
          (base_deck, st4) = new_list [] st3;
          st5 = fold (\<lambda>c s. if c \<notin> set (heap s used_cards) then list_append base_deck c s else s)
                  (heap st4 deck) st4
      in (base_deck, st5))"

text \<open>
  The result \<open>float(wins + ties) / float(total)\<close> is modelled by the exact quotient;
  dividing by \<open>float(0)\<close> raises \<open>ZeroDivisionError\<close>.
\<close>

definition simulate_win_probability ::
  "addr \<Rightarrow> addr \<Rightarrow> int \<Rightarrow> addr \<Rightarrow> int \<Rightarrow> store \<Rightarrow> (error + real) \<times> store" where
  "simulate_win_probability player_cards known_community num_opponents deck sims st =
     (let (base_deck, st5) = build_base_deck player_cards known_community deck st
      in case sim_loop (nat sims) player_cards known_community num_opponents base_deck
                (0, 0, 0) st5 of
           (Inl e, st6) \<Rightarrow> (Inl e, st6)
         | (Inr (wins, ties, total_count), st6) \<Rightarrow>
             if total_count = 0 then (Inl ZeroDivisionError, st6)
             else (Inr (real_of_int (wins + ties) / real_of_int total_count), st6))"

subsection \<open>Frame condition\<close>

text \<open>
  \<open>frame n st st'\<close>: going from \<open>st\<close> to \<open>st'\<close> no list object is lost and every object at
  an address below \<open>n\<close> has kept its contents.
\<close>

definition frame :: "addr \<Rightarrow> store \<Rightarrow> store \<Rightarrow> bool" where
  "frame n st st' \<longleftrightarrow> nxt st \<le> nxt st' \<and> (\<forall>a<n. heap st' a = heap st a)"

section \<open>Properties of the hand evaluator\<close>

lemma mset_sorted_desc: "mset (sorted_desc key xs) = mset xs"
  by (simp add: sorted_desc_def)

lemma length_sorted_desc: "length (sorted_desc key xs) = length xs"
  by (simp add: sorted_desc_def)

lemma set_sorted_desc: "set (sorted_desc key xs) = set xs"
  by (simp add: sorted_desc_def)

lemma ranks_sorted_desc: "map fst (sorted_desc fst cs) = rev (sort (map fst cs))"
proof -
  have "sort (map fst cs) = map fst (sort_key fst (rev cs))"
  proof (rule properties_for_sort)
    show "mset (map fst (sort_key fst (rev cs))) = mset (map fst cs)" by simp
    show "sorted (map fst (sort_key fst (rev cs)))" by (rule sorted_sort_key)
  qed
  then show ?thesis
    by (simp add: sorted_desc_def rev_map)
qed

lemma count_list_all: "count_list xs x = length xs \<longleftrightarrow> (\<forall>y\<in>set xs. y = x)"
proof (induction xs)
  case Nil
  then show ?case by simp
next
  case (Cons a xs)
  have "count_list xs x \<le> length xs" by (rule count_le_length)
  with Cons show ?case by auto
qed

lemma sum_dict_set_old:
  "map_of d k = Some n \<Longrightarrow> sum_list (map snd (dict_set d k v)) = sum_list (map snd d) - n + (v::int)"
  by (induction d k v rule: dict_set.induct) (auto split: if_splits)

lemma set_dict_set: "set (dict_set d k v) \<subseteq> insert (k, v) (set d)"
  by (induction d k v rule: dict_set.induct) auto

lemma map_of_pos: "map_of d k = Some n \<Longrightarrow> \<forall>p\<in>set d. 1 \<le> snd p \<Longrightarrow> 1 \<le> (n::int)"
  using map_of_SomeD [of d k n] by fastforce

lemma dict_set_new: "map_of d k = None \<Longrightarrow> dict_set d k v = d @ [(k, v)]"
  by (induction d k v rule: dict_set.induct) (auto split: if_splits)

lemma dict_set_last: "map_of d k = None \<Longrightarrow> dict_set (d @ [(k, v)]) k w = d @ [(k, w)]"
  by (induction d) (auto split: if_splits)

lemma count_rank_new: "map_of rc r = None \<Longrightarrow> count_rank r rc = rc @ [(r, 1)]"
proof -
  assume none: "map_of rc r = None"
  then have "map_of (rc @ [(r, 0::int)]) r = Some 0"
    by (simp add: map_add_def)
  with none show ?thesis
    by (simp add: count_rank_def Let_def dict_set_new dict_set_last del: map_of_append)
qed

lemma count_rank_old: "map_of rc r = Some n \<Longrightarrow> count_rank r rc = dict_set rc r (n + 1)"
  by (simp add: count_rank_def Let_def)

lemma sum_count_rank: "sum_list (map snd (count_rank r rc)) = sum_list (map snd rc) + 1"
  by (cases "map_of rc r") (simp_all add: count_rank_new count_rank_old sum_dict_set_old)

lemma pos_count_rank:
  assumes "\<forall>p\<in>set rc. 1 \<le> snd p"
  shows "\<forall>p\<in>set (count_rank r rc). 1 \<le> snd p"
proof (cases "map_of rc r")
  case None
  with assms show ?thesis by (simp add: count_rank_new)
next
  case (Some n)
  have "1 \<le> n" using Some assms by (rule map_of_pos)
  moreover have "set (count_rank r rc) \<subseteq> insert (r, n + 1) (set rc)"
    using Some by (simp add: count_rank_old set_dict_set)
  ultimately show ?thesis using assms by fastforce
qed

lemma fold_count_rank:
  "sum_list (map snd (fold count_rank rs rc)) = sum_list (map snd rc) + int (length rs)"
  by (induction rs arbitrary: rc) (simp_all add: sum_count_rank)

lemma fold_count_rank_pos:
  "\<forall>p\<in>set rc. 1 \<le> snd p \<Longrightarrow> \<forall>p\<in>set (fold count_rank rs rc). 1 \<le> snd p"
proof (induction rs arbitrary: rc)
  case Nil
  then show ?case by simp
next
  case (Cons r rs)
  from Cons.prems have "\<forall>p\<in>set (count_rank r rc). 1 \<le> snd p"
    by (rule pos_count_rank)
  then have "\<forall>p\<in>set (fold count_rank rs (count_rank r rc)). 1 \<le> snd p"
    by (rule Cons.IH)
  then show ?case by simp
qed

lemma sum_list_mset_cong:
  "mset xs = mset ys \<Longrightarrow> sum_list (map f xs) = (sum_list (map f ys) :: int)"
  by (metis mset_map sum_mset_sum_list)

lemma count_rank_pairs_sum:
  "sum_list (map fst (sorted_desc id (map (\<lambda>(r, cnt). (cnt, r)) (fold count_rank rs [])))) = int (length rs)"
proof -
  have "sum_list (map fst (sorted_desc id (map (\<lambda>(r, cnt). (cnt, r)) (fold count_rank rs []))))
      = sum_list (map fst (map (\<lambda>(r, cnt). (cnt, r)) (fold count_rank rs [])))"
    by (rule sum_list_mset_cong) (rule mset_sorted_desc)
  also have "\<dots> = sum_list (map snd (fold count_rank rs []))"
    by (simp add: o_def case_prod_unfold)
  finally show ?thesis by (simp add: fold_count_rank)
qed

lemma count_rank_pairs_pos:
  "\<forall>p\<in>set (sorted_desc id (map (\<lambda>(r, cnt). (cnt, r)) (fold count_rank rs []))). 1 \<le> fst p"
  using fold_count_rank_pos [of "[]" rs] by (auto simp: set_sorted_desc)

lemma length_kickers_of:
  "\<forall>p\<in>set ps. 0 \<le> fst p \<Longrightarrow> int (length (kickers_of ps)) = sum_list (map fst ps)"
  by (induction ps) (auto simp: kickers_of_def)

lemma list3_cases: "3 \<le> length xs \<Longrightarrow> \<exists>a b c t. xs = a # b # c # t"
  by (auto simp: numeral_eq_Suc Suc_le_length_iff)

lemma list5_cases: "5 \<le> length xs \<Longrightarrow> \<exists>a b c d e t. xs = a # b # c # d # e # t"
  by (auto simp: numeral_eq_Suc Suc_le_length_iff)

lemma rank_by_counts_total:
  assumes len: "5 \<le> length ranks"
    and sum: "sum_list (map fst ps) = int (length ranks)"
    and pos: "\<forall>p\<in>set ps. 1 \<le> fst p"
  shows "\<exists>c t. rank_by_counts ranks fl st tp ps = Inr (c # t) \<and> 1 \<le> c"
proof -
  from len obtain a b c d e t where ranks: "ranks = a # b # c # d # e # t"
    using list5_cases by blast
  from sum len obtain c0 r0 rest where ps: "ps = (c0, r0) # rest"
    by (cases ps) auto
  have rest_pos: "\<forall>p\<in>set rest. 1 \<le> fst p" using pos ps by simp
  have rest_sum: "sum_list (map fst rest) = int (length ranks) - c0" using sum ps by simp
  show ?thesis
  proof (cases "c0 = 4")
    case True
    then have "rest \<noteq> []" using rest_sum len by auto
    then obtain c1 r1 rest' where "rest = (c1, r1) # rest'" by (cases rest) auto
    then show ?thesis using True ps by (simp add: rank_by_counts_def)
  next
    case n4: False
    show ?thesis
    proof (cases "c0 = 3")
      case True
      then show ?thesis using ps by (simp add: rank_by_counts_def)
    next
      case n3: False
      show ?thesis
      proof (cases "c0 = 2")
        case True
        show ?thesis
        proof (cases "1 < length (map fst ps) \<and> map fst ps ! 1 = 2")
          case tp: True
          then obtain r1 rest' where r': "rest = (2, r1) # rest'"
            using ps by (cases rest) auto
          then have "rest' \<noteq> []" using rest_sum len True by auto
          then obtain c2 r2 rest'' where "rest' = (c2, r2) # rest''" by (cases rest') auto
          then show ?thesis using True ps r' by (simp add: rank_by_counts_def)
        next
          case op: False
          have "int (length (kickers_of rest)) = sum_list (map fst rest)"
            using rest_pos by (intro length_kickers_of) fastforce
          then have "3 \<le> length (sorted_desc id (kickers_of rest))"
            using rest_sum len True by (simp add: length_sorted_desc)
          then obtain k0 k1 k2 kt where "sorted_desc id (kickers_of rest) = k0 # k1 # k2 # kt"
            using list3_cases by blast
          then show ?thesis using True ps op
            by (cases rest) (simp_all add: rank_by_counts_def split_beta)
        qed
      next
        case False
        then show ?thesis using n4 n3 ps ranks by (simp add: rank_by_counts_def)
      qed
    qed
  qed
qed

lemma rank_of_ranks_total:
  assumes "5 \<le> length ranks"
  shows "\<exists>c t. rank_of_ranks ranks fl = Inr (c # t) \<and> 1 \<le> c"
proof -
  obtain st tp where cs: "check_straight (fold add_distinct ranks []) = (st, tp)"
    by (cases "check_straight (fold add_distinct ranks [])")
  show ?thesis
  proof (cases "fl \<and> st")
    case True
    then show ?thesis by (simp add: rank_of_ranks_def cs)
  next
    case False
    have "\<exists>c t. rank_by_counts ranks fl st tp
             (sorted_desc id (map (\<lambda>(r, cnt). (cnt, r)) (fold count_rank ranks []))) = Inr (c # t) \<and> 1 \<le> c"
      using assms count_rank_pairs_sum count_rank_pairs_pos by (rule rank_by_counts_total)
    with False show ?thesis by (simp add: rank_of_ranks_def cs)
  qed
qed

lemma flush_5:
  assumes "length cs = 5" and "map snd (sorted_desc fst cs) = s0 # t"
  shows "(count_list (map snd (sorted_desc fst cs)) s0 = 5) = (\<forall>x\<in>set cs. \<forall>y\<in>set cs. snd x = snd y)"
proof -
  let ?suits = "map snd (sorted_desc fst cs)"
  have len: "length ?suits = 5" using assms(1) by (simp add: length_sorted_desc)
  have set: "set ?suits = snd ` set cs" by (simp add: set_sorted_desc)
  have s0: "s0 \<in> snd ` set cs" using assms(2) set by (metis list.set_intros(1))
  have "(count_list ?suits s0 = 5) = (\<forall>y\<in>set ?suits. y = s0)"
    using count_list_all [of ?suits s0] len by simp
  also have "\<dots> = (\<forall>x\<in>set cs. snd x = s0)" using set by auto
  also have "\<dots> = (\<forall>x\<in>set cs. \<forall>y\<in>set cs. snd x = snd y)"
  proof
    assume "\<forall>x\<in>set cs. snd x = s0"
    then show "\<forall>x\<in>set cs. \<forall>y\<in>set cs. snd x = snd y" by simp
  next
    assume a: "\<forall>x\<in>set cs. \<forall>y\<in>set cs. snd x = snd y"
    from s0 obtain z where "z \<in> set cs" "snd z = s0" by auto
    with a show "\<forall>x\<in>set cs. snd x = s0" by blast
  qed
  finally show ?thesis .
qed

lemma rank_5cards_eq:
  assumes "length cs = 5"
  shows "rank_5cards cs =
    rank_of_ranks (rev (sort (map fst cs))) (\<forall>x\<in>set cs. \<forall>y\<in>set cs. snd x = snd y)"
proof -
  have "length (map snd (sorted_desc fst cs)) = 5" using assms by (simp add: length_sorted_desc)
  then obtain s0 t where st: "map snd (sorted_desc fst cs) = s0 # t"
    by (cases "map snd (sorted_desc fst cs)") auto
  have "rank_5cards cs = rank_of_ranks (map fst (sorted_desc fst cs))
          (count_list (map snd (sorted_desc fst cs)) s0 = 5)"
    by (simp add: rank_5cards_def Let_def st)
  then show ?thesis
    by (simp only: flush_5 [OF assms st] ranks_sorted_desc)
qed

lemma rank_5cards_ne:
  assumes "cs \<noteq> []"
  shows "\<exists>fl. rank_5cards cs = rank_of_ranks (rev (sort (map fst cs))) fl"
proof -
  have "map snd (sorted_desc fst cs) \<noteq> []"
    using assms length_sorted_desc [of fst cs] by auto
  then obtain s0 t where st: "map snd (sorted_desc fst cs) = s0 # t"
    by (cases "map snd (sorted_desc fst cs)") auto
  have "rank_5cards cs = rank_of_ranks (map fst (sorted_desc fst cs))
          (count_list (map snd (sorted_desc fst cs)) s0 = 5)"
    by (simp add: rank_5cards_def Let_def st)
  then show ?thesis by (auto simp only: ranks_sorted_desc)
qed

lemma rank_5cards_total:
  assumes "5 \<le> length cs"
  shows "\<exists>c t. rank_5cards cs = Inr (c # t) \<and> 1 \<le> c"
proof -
  from assms have "cs \<noteq> []" by auto
  then obtain fl where "rank_5cards cs = rank_of_ranks (rev (sort (map fst cs))) fl"
    using rank_5cards_ne by blast
  moreover have "5 \<le> length (rev (sort (map fst cs)))" using assms by simp
  ultimately show ?thesis using rank_of_ranks_total by simp
qed

lemma rank_5cards_mset:
  assumes "length cs = 5" and "mset cs = mset cs'"
  shows "rank_5cards cs = rank_5cards cs'"
proof -
  have len': "length cs' = 5" using assms by (metis size_mset)
  have "set cs = set cs'" using assms(2) by (rule mset_eq_setD)
  moreover have "sort (map fst cs) = sort (map fst cs')"
  proof (rule properties_for_sort)
    show "mset (sort (map fst cs')) = mset (map fst cs)" using assms(2) by simp
    show "sorted (sort (map fst cs'))" by simp
  qed
  ultimately show ?thesis
    by (simp add: rank_5cards_eq [OF assms(1)] rank_5cards_eq [OF len'])
qed

lemma combos5_short: "length cs < 5 \<Longrightarrow> combos5 cs = []"
  by (simp add: combos5_def)

lemma combos5_seven:
  "combos5 [a, b, c, d, e, f, g] =
    [[a,b,c,d,e],[a,b,c,d,f],[a,b,c,d,g],[a,b,c,e,f],[a,b,c,e,g],[a,b,c,f,g],
     [a,b,d,e,f],[a,b,d,e,g],[a,b,d,f,g],[a,b,e,f,g],
     [a,c,d,e,f],[a,c,d,e,g],[a,c,d,f,g],[a,c,e,f,g],[a,d,e,f,g],
     [b,c,d,e,f],[b,c,d,e,g],[b,c,d,f,g],[b,c,e,f,g],[b,d,e,f,g],[c,d,e,f,g]]"
  by (simp add: combos5_def upt_rec)

lemma subseqs_seven:
  "list_all (\<lambda>ys. length ys = 5 \<longrightarrow> ys \<in> set (combos5 [a, b, c, d, e, f, g]))
     (subseqs [a, b, c, d, e, f, g])"
  unfolding combos5_seven by (simp add: Let_def)

lemma combos5_sub_seven:
  "list_all (\<lambda>ys. ys \<in> set (subseqs [a, b, c, d, e, f, g]))
     (combos5 [a, b, c, d, e, f, g])"
  unfolding combos5_seven by (simp add: Let_def del: in_set_subseqs)

lemma list7_cases:
  "length xs = 7 \<Longrightarrow> \<exists>a b c d e f g. xs = [a, b, c, d, e, f, g]"
  by (auto simp: numeral_eq_Suc length_Suc_conv)

lemma combos5_length: "ys \<in> set (combos5 cs) \<Longrightarrow> length ys = 5"
  by (auto simp: combos5_def Let_def)

lemma combos5_cover:
  assumes "length cs = 7" and "subseq ys cs" and "length ys = 5"
  shows "ys \<in> set (combos5 cs)"
proof -
  from assms(1) obtain a b c d e f g where cs: "cs = [a, b, c, d, e, f, g]"
    using list7_cases by blast
  have "ys \<in> set (subseqs [a, b, c, d, e, f, g])" using assms(2) cs by (simp only: in_set_subseqs)
  with subseqs_seven [of a b c d e f g] assms(3) show ?thesis
    unfolding cs list_all_iff by blast
qed

lemma combos5_subseq:
  assumes "length cs = 7" and "ys \<in> set (combos5 cs)"
  shows "subseq ys cs"
proof -
  from assms(1) obtain a b c d e f g where cs: "cs = [a, b, c, d, e, f, g]"
    using list7_cases by blast
  have "ys \<in> set (subseqs [a, b, c, d, e, f, g])"
    using combos5_sub_seven [of a b c d e f g] assms(2)
    unfolding cs list_all_iff by blast
  then show ?thesis using cs by (simp only: in_set_subseqs)
qed

lemma best_of_spec:
  assumes "\<forall>c\<in>set cs. 5 \<le> length c"
  shows "\<exists>m. best_of cs b = Inr m \<and> b \<le> m
           \<and> (\<forall>c\<in>set cs. \<exists>r. rank_5cards c = Inr r \<and> r \<le> m)
           \<and> (m = b \<or> (\<exists>c\<in>set cs. rank_5cards c = Inr m))"
  using assms
proof (induction cs arbitrary: b)
  case Nil
  then show ?case by simp
next
  case (Cons c cs)
  then have "5 \<le> length c" by simp
  then obtain r where r: "rank_5cards c = Inr r"
    using rank_5cards_total by blast
  define b' where "b' = (if r > b then r else b)"
  have b': "b \<le> b'" "r \<le> b'" "b' = b \<or> b' = r" by (auto simp: b'_def)
  from Cons.prems have "\<forall>c\<in>set cs. 5 \<le> length c" by simp
  from Cons.IH [OF this, of b'] obtain m where m: "best_of cs b' = Inr m" "b' \<le> m"
    "\<forall>c\<in>set cs. \<exists>r. rank_5cards c = Inr r \<and> r \<le> m"
    "m = b' \<or> (\<exists>c\<in>set cs. rank_5cards c = Inr m)" by blast
  have "best_of (c # cs) b = Inr m" using r m(1) by (simp add: b'_def)
  moreover have "b \<le> m" using b'(1) m(2) by (rule order_trans)
  moreover have "r \<le> m" using b'(2) m(2) by (rule order_trans)
  moreover have "m = b \<or> rank_5cards c = Inr m \<or> (\<exists>c\<in>set cs. rank_5cards c = Inr m)"
    using m(4) b'(3) r by auto
  ultimately show ?case using m(3) r by auto
qed

lemma rank_7cards_total: "\<exists>m. rank_7cards cs = Inr m \<and> [0] \<le> m"
proof -
  have "\<forall>c\<in>set (combos5 cs). 5 \<le> length c" by (simp add: combos5_length)
  from best_of_spec [OF this, of "[0]"] show ?thesis by (auto simp: rank_7cards_def)
qed

lemma rank_7cards_short: "length cs < 5 \<Longrightarrow> rank_7cards cs = Inr [0]"
  by (simp add: rank_7cards_def combos5_short)

lemma rank_7cards_seven:
  assumes "length cs = 7"
  shows "\<exists>m. rank_7cards cs = Inr m
           \<and> (\<forall>c\<in>set (combos5 cs). \<exists>r. rank_5cards c = Inr r \<and> r \<le> m)
           \<and> (\<exists>c\<in>set (combos5 cs). rank_5cards c = Inr m)"
proof -
  have len: "\<forall>c\<in>set (combos5 cs). 5 \<le> length c" by (simp add: combos5_length)
  from best_of_spec [OF this, of "[0]"] obtain m where m: "rank_7cards cs = Inr m"
    "\<forall>c\<in>set (combos5 cs). \<exists>r. rank_5cards c = Inr r \<and> r \<le> m"
    "m = [0] \<or> (\<exists>c\<in>set (combos5 cs). rank_5cards c = Inr m)"
    by (auto simp: rank_7cards_def)
  have "take 5 cs \<in> set (combos5 cs)"
    using assms by (intro combos5_cover) (simp_all add: prefix_imp_subseq take_is_prefix)
  then obtain c0 where c0: "c0 \<in> set (combos5 cs)" by blast
  then obtain r where r: "rank_5cards c0 = Inr r" "r \<le> m" using m(2) by blast
  from c0 have "5 \<le> length c0" using len by blast
  then obtain k t where "rank_5cards c0 = Inr (k # t)" "1 \<le> k"
    using rank_5cards_total by blast
  with r have "[0] < r" by auto
  with r(2) have "m \<noteq> [0]" by auto
  with m show ?thesis by blast
qed

lemma wheel_eval: "rank_of_ranks [14, 5, 4, 3, 2] False = Inr [5, 5]"
  by code_simp

lemma six_high_eval: "rank_of_ranks [6, 5, 4, 3, 2] False = Inr [5, 6]"
  by code_simp

lemma ranks_of_mset:
  assumes "mset (map fst cs) = mset rs" and "sorted (rev rs)"
  shows "rev (sort (map fst cs)) = rs"
proof -
  have "sort (map fst cs) = rev rs"
  proof (rule properties_for_sort)
    show "mset (rev rs) = mset (map fst cs)" using assms(1) by simp
    show "sorted (rev rs)" by (rule assms(2))
  qed
  then show ?thesis by simp
qed

lemma length_of_ranks_mset:
  assumes "mset (map fst cs) = mset rs"
  shows "length cs = length rs"
proof -
  have "size (mset (map fst cs)) = size (mset rs)" using assms by simp
  then show ?thesis by simp
qed

text \<open>
  Claim C6. A five-card hand whose ranks are exactly 14, 5, 4, 3, 2 and whose suits are not
  all identical is ranked \<open>(5, 5)\<close>: a straight with top rank 5. A hand with ranks
  6, 5, 4, 3, 2 that is not a flush is ranked \<open>(5, 6)\<close>, and \<open>(5, 5) < (5, 6)\<close> in the
  tuple order.
\<close>

theorem wheel_straight:
  assumes "mset (map fst cs) = {#14, 5, 4, 3, 2#}"
    and "\<not> (\<forall>x\<in>set cs. \<forall>y\<in>set cs. snd x = snd y)"
    and "mset (map fst cs') = {#6, 5, 4, 3, 2#}"
    and "\<not> (\<forall>x\<in>set cs'. \<forall>y\<in>set cs'. snd x = snd y)"
  shows "rank_5cards cs = Inr [5, 5] \<and> rank_5cards cs' = Inr [5, 6]
         \<and> ([5, 5] :: hand_rank) < [5, 6]"
proof -
  have m: "mset (map fst cs) = mset [14, 5, 4, 3, 2]" using assms(1) by simp
  have m': "mset (map fst cs') = mset [6, 5, 4, 3, 2]" using assms(3) by simp
  have len: "length cs = 5" using length_of_ranks_mset [OF m] by simp
  have len': "length cs' = 5" using length_of_ranks_mset [OF m'] by simp
  have r: "rev (sort (map fst cs)) = [14, 5, 4, 3, 2]"
    by (rule ranks_of_mset [OF m]) simp
  have r': "rev (sort (map fst cs')) = [6, 5, 4, 3, 2]"
    by (rule ranks_of_mset [OF m']) simp
  have "rank_5cards cs = Inr [5, 5]"
    using assms(2) by (simp only: rank_5cards_eq [OF len] r wheel_eval)
  moreover have "rank_5cards cs' = Inr [5, 6]"
    using assms(4) by (simp only: rank_5cards_eq [OF len'] r' six_high_eval)
  moreover have "([5, 5] :: hand_rank) < [5, 6]" by simp
  ultimately show ?thesis by simp
qed

theorem wheel_straight_witness:
  "rank_5cards [(14, 0), (3, 1), (4, 0), (5, 0), (2, 0)] = Inr [5, 5]
   \<and> rank_5cards [(6, 2), (5, 1), (4, 0), (3, 0), (2, 0)] = Inr [5, 6]
   \<and> ([5, 5] :: hand_rank) < [5, 6]"
  using wheel_straight [of "[(14, 0), (3, 1), (4, 0), (5, 0), (2, 0)]"
                           "[(6, 2), (5, 1), (4, 0), (3, 0), (2, 0)]"]
  by simp

text \<open>
  Claim C9. \<open>rank_5cards\<close> returns the same tuple on every permutation of a five-card
  hand (two lists with the same multiset of cards), and it does return a tuple.
\<close>

theorem rank_5cards_permutation:
  assumes "length cards5 = 5" and "mset shuffled = mset cards5"
  shows "rank_5cards shuffled = rank_5cards cards5
         \<and> (\<exists>r. rank_5cards cards5 = Inr r)"
proof -
  have "rank_5cards cards5 = rank_5cards shuffled"
    using assms(1) assms(2) [symmetric] by (rule rank_5cards_mset)
  moreover have "\<exists>r. rank_5cards cards5 = Inr r"
    using rank_5cards_total [of cards5] assms(1) by auto
  ultimately show ?thesis by simp
qed

theorem rank_5cards_permutation_witness:
  "rank_5cards [(9, 3), (6, 1), (7, 3), (6, 0), (6, 2)]
     = rank_5cards [(6, 0), (6, 1), (6, 2), (7, 3), (9, 3)]
   \<and> rank_5cards [(6, 0), (6, 1), (6, 2), (7, 3), (9, 3)] = Inr [4, 6, 9, 7]"
proof -
  have "rank_5cards [(6, 0), (6, 1), (6, 2), (7, 3), (9, 3)] = Inr [4, 6, 9, 7]"
    by code_simp
  moreover have "rank_5cards [(9, 3), (6, 1), (7, 3), (6, 0), (6, 2)]
     = rank_5cards [(6, 0), (6, 1), (6, 2), (7, 3), (9, 3)]"
    using rank_5cards_permutation [of "[(6, 0), (6, 1), (6, 2), (7, 3), (9, 3)]"
                                      "[(9, 3), (6, 1), (7, 3), (6, 0), (6, 2)]"]
    by simp
  ultimately show ?thesis by simp
qed

text \<open>
  Claim C1. For seven distinct cards \<open>rank_7cards\<close> returns a tuple \<open>best\<close> that is
  greater than or equal to \<open>rank_5cards\<close> of every selection of five of the cards (in any
  order), and equal to \<open>rank_5cards\<close> of one such selection; the loops visit 21
  combinations.
\<close>

theorem rank_7cards_maximum:
  assumes "length cards7 = 7" and "distinct cards7"
  shows "\<exists>best. rank_7cards cards7 = Inr best
     \<and> (\<forall>c5. length c5 = 5 \<and> distinct c5 \<and> set c5 \<subseteq> set cards7
            \<longrightarrow> (\<exists>r. rank_5cards c5 = Inr r \<and> r \<le> best))
     \<and> (\<exists>c5. length c5 = 5 \<and> distinct c5 \<and> set c5 \<subseteq> set cards7
            \<and> rank_5cards c5 = Inr best)
     \<and> length (combos5 cards7) = 21"
proof -
  from rank_7cards_seven [OF assms(1)] obtain m where m: "rank_7cards cards7 = Inr m"
    "\<forall>c\<in>set (combos5 cards7). \<exists>r. rank_5cards c = Inr r \<and> r \<le> m"
    "\<exists>c\<in>set (combos5 cards7). rank_5cards c = Inr m" by blast
  have upper: "\<exists>r. rank_5cards c5 = Inr r \<and> r \<le> m"
    if c5: "length c5 = 5" "distinct c5" "set c5 \<subseteq> set cards7" for c5
  proof -
    let ?ys = "filter (\<lambda>c. c \<in> set c5) cards7"
    have "set ?ys = set c5" using c5(3) by auto
    moreover have "distinct ?ys" using assms(2) by simp
    ultimately have ms: "mset ?ys = mset c5"
      using c5(2) set_eq_iff_mset_eq_distinct [of ?ys c5] by blast
    then have "length ?ys = 5" using c5(1) by (metis size_mset)
    moreover have "subseq ?ys cards7" by simp
    ultimately have "?ys \<in> set (combos5 cards7)"
      using assms(1) by (intro combos5_cover)
    then obtain r where "rank_5cards ?ys = Inr r" "r \<le> m" using m(2) by blast
    moreover have "rank_5cards c5 = rank_5cards ?ys"
      using c5(1) ms [symmetric] by (rule rank_5cards_mset)
    ultimately show ?thesis by simp
  qed
  from m(3) obtain c where c: "c \<in> set (combos5 cards7)" "rank_5cards c = Inr m" by blast
  have sub: "subseq c cards7" using assms(1) c(1) by (rule combos5_subseq)
  have "length c = 5" using c(1) by (rule combos5_length)
  moreover have "distinct c"
  proof (rule subseqs_distinctD)
    show "c \<in> set (subseqs cards7)" using sub by (simp only: in_set_subseqs)
    show "distinct cards7" by (rule assms(2))
  qed
  moreover have "set c \<subseteq> set cards7"
    using sub by (auto dest: list_emb_set)
  moreover have "length (combos5 cards7) = 21"
  proof -
    from assms(1) obtain a b c d e f g where "cards7 = [a, b, c, d, e, f, g]"
      using list7_cases by blast
    then show ?thesis by (simp add: combos5_seven)
  qed
  ultimately show ?thesis using m(1) c(2) upper by blast
qed

theorem rank_7cards_maximum_witness:
  "rank_7cards [(14, 0), (13, 0), (12, 0), (11, 0), (10, 0), (2, 2), (3, 2)] = Inr [9, 14]
   \<and> (\<exists>r. rank_5cards [(3, 2), (2, 2), (14, 0), (13, 0), (12, 0)] = Inr r \<and> r \<le> [9, 14])"
proof -
  let ?c7 = "[(14, 0), (13, 0), (12, 0), (11, 0), (10, 0), (2, 2), (3, 2)] :: card list"
  have e: "rank_7cards ?c7 = Inr [9, 14]" by code_simp
  from rank_7cards_maximum [of ?c7] obtain best where b: "rank_7cards ?c7 = Inr best"
    "\<forall>c5. length c5 = 5 \<and> distinct c5 \<and> set c5 \<subseteq> set ?c7
            \<longrightarrow> (\<exists>r. rank_5cards c5 = Inr r \<and> r \<le> best)"
    by auto
  from b(1) e have "best = [9, 14]" by simp
  moreover have "\<exists>r. rank_5cards [(3, 2), (2, 2), (14, 0), (13, 0), (12, 0)] = Inr r \<and> r \<le> best"
    by (rule b(2) [rule_format]) simp
  ultimately show ?thesis using e by simp
qed

section \<open>Properties of the generator\<close>

lemma rand_int_ok:
  "high - low + 1 \<noteq> 0 \<Longrightarrow>
   rand_int low high st =
     (Inr (low + ((1103515245 * seed st + 12345) mod 2147483648) mod (high - low + 1)),
      st\<lparr>seed := (1103515245 * seed st + 12345) mod 2147483648\<rparr>)"
  by (simp add: rand_int_def Let_def)

lemma rand_int_zero:
  "high - low + 1 = 0 \<Longrightarrow>
   rand_int low high st =
     (Inl ZeroDivisionError, st\<lparr>seed := (1103515245 * seed st + 12345) mod 2147483648\<rparr>)"
  by (simp add: rand_int_def Let_def)

text \<open>
  Claim C3. For \<open>low \<le> high\<close>, \<open>rand_int(low, high)\<close> returns an integer \<open>v\<close> with
  \<open>low \<le> v \<le> high\<close>; the only change to the store is that the seed \<open>s\<close> becomes
  \<open>(1103515245 * s + 12345) mod 2147483648\<close>, and \<open>v\<close> is \<open>low\<close> plus the new seed modulo
  \<open>high - low + 1\<close>.
\<close>

theorem rand_int_in_range:
  assumes "low \<le> high"
  shows "\<exists>v s'. s' = (1103515245 * seed st + 12345) mod 2147483648
           \<and> rand_int low high st = (Inr v, st\<lparr>seed := s'\<rparr>)
           \<and> v = low + s' mod (high - low + 1)
           \<and> low \<le> v \<and> v \<le> high"
proof -
  let ?s = "(1103515245 * seed st + 12345) mod 2147483648"
  from assms have pos: "0 < high - low + 1" by simp
  then have "0 \<le> ?s mod (high - low + 1)" "?s mod (high - low + 1) < high - low + 1"
    by (rule pos_mod_sign, rule pos_mod_bound)
  moreover have "rand_int low high st = (Inr (low + ?s mod (high - low + 1)), st\<lparr>seed := ?s\<rparr>)"
    using pos by (intro rand_int_ok) simp
  ultimately show ?thesis by simp
qed

text \<open>
  The first draw of the script: from the default seed, \<open>rand_int(0, 51)\<close> returns 37.
\<close>

theorem rand_int_in_range_witness:
  "rand_int 0 51 initial_store
     = (Inr 37, initial_store\<lparr>seed := 1591278921\<rparr>)"
  using rand_int_in_range [of 0 51 initial_store]
  by (simp add: initial_store_def)




lemma shuffle_loop_Cons:
  "shuffle_loop a (i # rest) st =
     shuffle_loop a rest
       (list_swap a i (nat (((1103515245 * seed st + 12345) mod 2147483648) mod (int i + 1)))
          (st\<lparr>seed := (1103515245 * seed st + 12345) mod 2147483648\<rparr>))"
proof -
  have "int i - 0 + 1 \<noteq> 0" by simp
  from rand_int_ok [OF this, of st] show ?thesis by simp
qed

lemma shuffle_loop_ok: "fst (shuffle_loop a idxs st) = Inr ()"
  by (induction idxs arbitrary: st) (simp_all add: shuffle_loop_Cons del: shuffle_loop.simps(2))

lemma seed_list_swap: "seed (list_swap a i j st) = seed st"
  by (simp add: list_swap_def Let_def)

lemma nxt_list_swap: "nxt (list_swap a i j st) = nxt st"
  by (simp add: list_swap_def Let_def)

lemma heap_list_swap:
  "heap (list_swap a i j st) b =
     (if b = a then ((heap st a)[i := heap st a ! j])[j := heap st a ! i] else heap st b)"
  by (simp add: list_swap_def Let_def)

lemma shuffle_loop_two_runs:
  assumes "seed st1 = seed st2" and "heap st1 a1 = heap st2 a2"
  shows "heap (snd (shuffle_loop a1 idxs st1)) a1 = heap (snd (shuffle_loop a2 idxs st2)) a2
       \<and> seed (snd (shuffle_loop a1 idxs st1)) = seed (snd (shuffle_loop a2 idxs st2))"
  using assms
proof (induction idxs arbitrary: st1 st2)
  case Nil
  then show ?case by simp
next
  case (Cons i idxs)
  let ?s = "(1103515245 * seed st1 + 12345) mod 2147483648"
  let ?j = "nat (?s mod (int i + 1))"
  let ?n1 = "list_swap a1 i ?j (st1\<lparr>seed := ?s\<rparr>)"
  let ?n2 = "list_swap a2 i ?j (st2\<lparr>seed := ?s\<rparr>)"
  have "seed ?n1 = seed ?n2" by (simp add: seed_list_swap)
  moreover have "heap ?n1 a1 = heap ?n2 a2" using Cons.prems(2) by (simp add: heap_list_swap)
  ultimately have "heap (snd (shuffle_loop a1 idxs ?n1)) a1 = heap (snd (shuffle_loop a2 idxs ?n2)) a2
       \<and> seed (snd (shuffle_loop a1 idxs ?n1)) = seed (snd (shuffle_loop a2 idxs ?n2))"
    by (rule Cons.IH)
  then show ?case
    using Cons.prems(1) by (simp add: shuffle_loop_Cons del: shuffle_loop.simps(2))
qed

lemma run_queries_two_runs:
  assumes "seed st1 = seed st2"
  shows "fst (run_queries qs st1) = fst (run_queries qs st2)
       \<and> seed (snd (run_queries qs st1)) = seed (snd (run_queries qs st2))"
  using assms
proof (induction qs arbitrary: st1 st2)
  case Nil
  then show ?case by simp
next
  case (Cons q qs)
  obtain low high where q: "q = (low, high)" by (cases q)
  let ?s = "(1103515245 * seed st1 + 12345) mod 2147483648"
  show ?case
  proof (cases "high - low + 1 = 0")
    case True
    then show ?thesis using Cons.prems by (simp add: q rand_int_zero)
  next
    case False
    have "seed (st1\<lparr>seed := ?s\<rparr>) = seed (st2\<lparr>seed := ?s\<rparr>)" by simp
    then have "fst (run_queries qs (st1\<lparr>seed := ?s\<rparr>)) = fst (run_queries qs (st2\<lparr>seed := ?s\<rparr>))
       \<and> seed (snd (run_queries qs (st1\<lparr>seed := ?s\<rparr>))) = seed (snd (run_queries qs (st2\<lparr>seed := ?s\<rparr>)))"
      by (rule Cons.IH)
    then show ?thesis
      using Cons.prems False
      by (cases "run_queries qs (st1\<lparr>seed := ?s\<rparr>)"; cases "run_queries qs (st2\<lparr>seed := ?s\<rparr>)")
         (auto simp: q rand_int_ok split: sum.splits)
  qed
qed

lemma shuffle_loop_queries:
  "seed (snd (shuffle_loop a idxs st)) = seed (snd (run_queries (map (\<lambda>i. (0, int i)) idxs) st))"
proof (induction idxs arbitrary: st)
  case Nil
  then show ?case by simp
next
  case (Cons i idxs)
  let ?s = "(1103515245 * seed st + 12345) mod 2147483648"
  let ?j = "nat (?s mod (int i + 1))"
  let ?qs = "map (\<lambda>i. (0, int i)) idxs"
  have "seed (snd (shuffle_loop a (i # idxs) st)) = seed (snd (run_queries ?qs (list_swap a i ?j (st\<lparr>seed := ?s\<rparr>))))"
    by (simp add: shuffle_loop_Cons Cons.IH del: shuffle_loop.simps(2))
  also have "\<dots> = seed (snd (run_queries ?qs (st\<lparr>seed := ?s\<rparr>)))"
    using run_queries_two_runs [of "list_swap a i ?j (st\<lparr>seed := ?s\<rparr>)" "st\<lparr>seed := ?s\<rparr>" ?qs]
    by (simp add: seed_list_swap)
  also have "\<dots> = seed (snd (run_queries (map (\<lambda>i. (0, int i)) (i # idxs)) st))"
  proof -
    have "int i - 0 + 1 \<noteq> 0" by simp
    from rand_int_ok [OF this, of st] show ?thesis
      by (cases "run_queries ?qs (st\<lparr>seed := ?s\<rparr>)") (auto split: sum.splits)
  qed
  finally show ?case .
qed

text \<open>
  Claim C7. Two runs that start with the same seed, in stores that may differ otherwise,
  and issue the same sequence of \<open>rand_int\<close> range queries obtain the same outputs (or the
  same exception) and end with the same seed. Shuffling equal lists in the two runs gives
  equal lists and equal seeds, and the seed after \<open>shuffle_in_place\<close> on a list of length
  \<open>n\<close> is the seed after the queries \<open>(0, n - 1), \<dots>, (0, 1)\<close>.
\<close>

theorem generator_deterministic:
  assumes "seed st1 = seed st2"
  shows "fst (run_queries qs st1) = fst (run_queries qs st2)
       \<and> seed (snd (run_queries qs st1)) = seed (snd (run_queries qs st2))
       \<and> (heap st1 a1 = heap st2 a2 \<longrightarrow>
            heap (snd (shuffle_in_place a1 st1)) a1 = heap (snd (shuffle_in_place a2 st2)) a2
          \<and> seed (snd (shuffle_in_place a1 st1)) = seed (snd (shuffle_in_place a2 st2)))
       \<and> seed (snd (shuffle_in_place a1 st1))
           = seed (snd (run_queries (map (\<lambda>i. (0, int i)) (rev [1..<length (heap st1 a1)])) st1))"
proof -
  have "heap (snd (shuffle_in_place a1 st1)) a1 = heap (snd (shuffle_in_place a2 st2)) a2
          \<and> seed (snd (shuffle_in_place a1 st1)) = seed (snd (shuffle_in_place a2 st2))"
    if h: "heap st1 a1 = heap st2 a2"
    using shuffle_loop_two_runs [OF assms h, of "rev [1..<length (heap st2 a2)]"] h
    by (simp add: shuffle_in_place_def)
  moreover have "seed (snd (shuffle_in_place a1 st1))
           = seed (snd (run_queries (map (\<lambda>i. (0, int i)) (rev [1..<length (heap st1 a1)])) st1))"
    by (simp add: shuffle_in_place_def shuffle_loop_queries)
  ultimately show ?thesis using run_queries_two_runs [OF assms, of qs] by blast
qed

text \<open>
  Two stores with the default seed and different heaps: both runs draw 37 and then 5.
\<close>

theorem generator_deterministic_witness:
  "fst (run_queries [(0, 51), (1, 6)] initial_store)
     = fst (run_queries [(0, 51), (1, 6)] (snd (new_list [(2, 0), (3, 0)] initial_store)))
   \<and> fst (run_queries [(0, 51), (1, 6)] initial_store) = Inr [37, 5]"
proof -
  have "fst (run_queries [(0, 51), (1, 6)] initial_store) = Inr [37, 5]"
    by (simp add: rand_int_def initial_store_def)
  moreover have "fst (run_queries [(0, 51), (1, 6)] initial_store)
     = fst (run_queries [(0, 51), (1, 6)] (snd (new_list [(2, 0), (3, 0)] initial_store)))"
    using generator_deterministic [of initial_store
        "snd (new_list [(2, 0), (3, 0)] initial_store)" "[(0, 51), (1, 6)]"]
    by (simp add: new_list_def)
  ultimately show ?thesis by simp
qed

section \<open>Properties of the deck functions\<close>

lemma remove_fold:
  "fold (\<lambda>c new_deck. if P c then new_deck @ [c] else new_deck) deck acc = acc @ filter P deck"
  by (induction deck arbitrary: acc) simp_all

lemma remove_cards_filter:
  "remove_cards_from_deck deck cards = filter (\<lambda>c. c \<notin> set cards) deck"
  by (simp add: remove_cards_from_deck_def Let_def remove_fold)

lemma make_deck_eval:
  "make_deck =
    [(2,0),(2,1),(2,2),(2,3),(3,0),(3,1),(3,2),(3,3),(4,0),(4,1),(4,2),(4,3),
     (5,0),(5,1),(5,2),(5,3),(6,0),(6,1),(6,2),(6,3),(7,0),(7,1),(7,2),(7,3),
     (8,0),(8,1),(8,2),(8,3),(9,0),(9,1),(9,2),(9,3),(10,0),(10,1),(10,2),(10,3),
     (11,0),(11,1),(11,2),(11,3),(12,0),(12,1),(12,2),(12,3),(13,0),(13,1),(13,2),(13,3),
     (14,0),(14,1),(14,2),(14,3)]"
  by code_simp

lemma length_make_deck: "length make_deck = 52"
  by (simp add: make_deck_eval)

lemma distinct_make_deck: "distinct make_deck"
  by (simp add: make_deck_eval)

lemma length_filter_removed:
  assumes "distinct deck" and "distinct cards" and "set cards \<subseteq> set deck"
  shows "length (filter (\<lambda>c. c \<notin> set cards) deck) = length deck - length cards"
proof -
  have "distinct (filter (\<lambda>c. c \<in> set cards) deck)" using assms(1) by simp
  moreover have "set (filter (\<lambda>c. c \<in> set cards) deck) = set cards" using assms(3) by auto
  ultimately have "length (filter (\<lambda>c. c \<in> set cards) deck) = length cards"
    using assms(2) by (metis distinct_card)
  moreover have "length (filter (\<lambda>c. c \<in> set cards) deck)
       + length (filter (\<lambda>c. \<not> c \<in> set cards) deck) = length deck"
    by (rule sum_length_filter_compl)
  ultimately show ?thesis by simp
qed

text \<open>
  Claim C8. \<open>remove_cards_from_deck\<close> returns the cards of the deck that are not among the
  cards to remove, in the order of the deck; cards to remove that are not in the deck
  make no difference; removing \<open>n\<close> distinct cards of the full deck leaves \<open>52 - n\<close>
  distinct cards, none of them a removed card.
\<close>

theorem remove_cards_from_deck_spec:
  "remove_cards_from_deck deck cards = filter (\<lambda>c. c \<notin> set cards) deck
   \<and> remove_cards_from_deck deck (filter (\<lambda>c. c \<in> set deck) cards)
       = remove_cards_from_deck deck cards
   \<and> (distinct cards \<and> set cards \<subseteq> set make_deck \<longrightarrow>
        length (remove_cards_from_deck make_deck cards) = 52 - length cards
        \<and> distinct (remove_cards_from_deck make_deck cards)
        \<and> set (remove_cards_from_deck make_deck cards) \<inter> set cards = {})"
proof -
  have "filter (\<lambda>c. c \<notin> set (filter (\<lambda>c. c \<in> set deck) cards)) deck
          = filter (\<lambda>c. c \<notin> set cards) deck"
    by (rule filter_cong) auto
  moreover have "length (filter (\<lambda>c. c \<notin> set cards) make_deck) = 52 - length cards"
    if "distinct cards" "set cards \<subseteq> set make_deck"
    using length_filter_removed [OF distinct_make_deck that] by (simp add: length_make_deck)
  moreover have "distinct (filter (\<lambda>c. c \<notin> set cards) make_deck)"
    using distinct_make_deck by simp
  moreover have "set (filter (\<lambda>c. c \<notin> set cards) make_deck) \<inter> set cards = {}" by auto
  ultimately show ?thesis by (simp only: remove_cards_filter) blast
qed

text \<open>
  Removing three cards from the full deck leaves 49 cards.
\<close>

theorem remove_cards_from_deck_witness:
  "length (remove_cards_from_deck make_deck [(14, 0), (13, 0), (2, 3)]) = 49
   \<and> (14, 0) \<notin> set (remove_cards_from_deck make_deck [(14, 0), (13, 0), (2, 3)])"
proof -
  have "distinct [(14, 0), (13, 0), (2, 3) :: card]
        \<and> set [(14, 0), (13, 0), (2, 3)] \<subseteq> set make_deck"
    by (simp add: make_deck_eval)
  with remove_cards_from_deck_spec [of make_deck "[(14, 0), (13, 0), (2, 3)]"]
  have "length (remove_cards_from_deck make_deck [(14, 0), (13, 0), (2, 3)]) = 52 - length [(14, 0), (13, 0), (2, 3) :: card]"
    and "set (remove_cards_from_deck make_deck [(14, 0), (13, 0), (2, 3)]) \<inter> set [(14, 0), (13, 0), (2, 3)] = {}"
    by blast+
  then show ?thesis by auto
qed

section \<open>Properties of the simulator\<close>

lemma frame_refl: "frame n st st"
  by (simp add: frame_def)

lemma frame_trans: "frame n st st' \<Longrightarrow> frame n st' st'' \<Longrightarrow> frame n st st''"
  by (auto simp: frame_def)

lemma frame_new_list: "n \<le> nxt st \<Longrightarrow> frame n st (snd (new_list xs st))"
  by (simp add: frame_def new_list_def)

lemma new_list_addr: "fst (new_list xs st) = nxt st"
  by (simp add: new_list_def)

lemma frame_list_append: "n \<le> a \<Longrightarrow> frame n st (list_append a c st)"
  by (simp add: frame_def list_append_def)

lemma frame_fold_append: "n \<le> a \<Longrightarrow> frame n st (fold (list_append a) xs st)"
proof (induction xs arbitrary: st)
  case Nil
  then show ?case by (simp add: frame_refl)
next
  case (Cons x xs)
  have "frame n st (list_append a x st)" using Cons.prems by (rule frame_list_append)
  moreover have "frame n (list_append a x st) (fold (list_append a) xs (list_append a x st))"
    using Cons.prems by (rule Cons.IH)
  ultimately show ?case by (simp add: frame_trans)
qed

lemma frame_fold_filter:
  "n \<le> b \<Longrightarrow>
   frame n st (fold (\<lambda>c s. if c \<notin> set (heap s u) then list_append b c s else s) xs st)"
proof (induction xs arbitrary: st)
  case Nil
  then show ?case by (simp add: frame_refl)
next
  case (Cons x xs)
  let ?f = "\<lambda>c s. if c \<notin> set (heap s u) then list_append b c s else s"
  have "frame n st (?f x st)" using Cons.prems by (simp add: frame_list_append frame_refl)
  moreover have "frame n (?f x st) (fold ?f xs (?f x st))"
    using Cons.prems by (rule Cons.IH)
  ultimately have "frame n st (fold ?f xs (?f x st))" by (rule frame_trans)
  then show ?case by simp
qed

lemma frame_list_swap: "n \<le> a \<Longrightarrow> frame n st (list_swap a i j st)"
  by (simp add: frame_def heap_list_swap nxt_list_swap)

lemma frame_seed: "frame n st (st\<lparr>seed := s\<rparr>)"
  by (simp add: frame_def)

lemma frame_shuffle_loop: "n \<le> a \<Longrightarrow> frame n st (snd (shuffle_loop a idxs st))"
proof (induction idxs arbitrary: st)
  case Nil
  then show ?case by (simp add: frame_refl)
next
  case (Cons i idxs)
  let ?s = "(1103515245 * seed st + 12345) mod 2147483648"
  let ?st = "list_swap a i (nat (?s mod (int i + 1))) (st\<lparr>seed := ?s\<rparr>)"
  have "frame n (st\<lparr>seed := ?s\<rparr>) ?st" using Cons.prems by (rule frame_list_swap)
  with frame_seed have "frame n st ?st" by (rule frame_trans)
  moreover have "frame n ?st (snd (shuffle_loop a idxs ?st))" using Cons.prems by (rule Cons.IH)
  ultimately have "frame n st (snd (shuffle_loop a idxs ?st))" by (rule frame_trans)
  then show ?case by (simp add: shuffle_loop_Cons del: shuffle_loop.simps(2))
qed

lemma shuffle_in_place_ok:
  "\<exists>st'. shuffle_in_place a st = (Inr (), st')"
  using shuffle_loop_ok [of a "rev [1..<length (heap st a)]" st]
  by (cases "shuffle_loop a (rev [1..<length (heap st a)]) st") (simp add: shuffle_in_place_def)

lemma frame_shuffle_in_place: "n \<le> a \<Longrightarrow> frame n st (snd (shuffle_in_place a st))"
  by (simp add: shuffle_in_place_def frame_shuffle_loop)

lemma deal_trial_ok:
  "\<exists>fc ohs st'. deal_trial kc nopp bd st = (Inr (fc, ohs), st')"
proof -
  obtain st2 where "shuffle_in_place (nxt st) (snd (new_list (heap st bd) st)) = (Inr (), st2)"
    using shuffle_in_place_ok by blast
  then show ?thesis
    by (simp add: deal_trial_def Let_def new_list_def split_beta)
qed

lemma frame_deal_trial:
  assumes "n \<le> nxt st"
  shows "frame n st (snd (deal_trial kc nopp bd st))"
proof -
  let ?st1 = "snd (new_list (heap st bd) st)"
  have f1: "frame n st ?st1" using assms by (rule frame_new_list)
  have f2: "frame n ?st1 (snd (shuffle_in_place (nxt st) ?st1))"
    using assms by (rule frame_shuffle_in_place)
  obtain st2 where s: "shuffle_in_place (nxt st) ?st1 = (Inr (), st2)"
    using shuffle_in_place_ok by blast
  have "snd (deal_trial kc nopp bd st) = st2"
    using s by (simp add: deal_trial_def Let_def new_list_def split_beta)
  moreover have "frame n st st2" using f1 f2 s frame_trans by fastforce
  ultimately show ?thesis by simp
qed

lemma snd_run_trial: "snd (run_trial pc kc nopp bd counters st) = snd (deal_trial kc nopp bd st)"
  by (auto simp: run_trial_def split: prod.splits sum.splits)

lemma frame_sim_loop:
  "n \<le> nxt st \<Longrightarrow> frame n st (snd (sim_loop k pc kc nopp bd counters st))"
proof (induction k arbitrary: counters st)
  case 0
  then show ?case by (simp add: frame_refl)
next
  case (Suc k)
  obtain r st' where rt: "run_trial pc kc nopp bd counters st = (r, st')"
    by (cases "run_trial pc kc nopp bd counters st")
  have f: "frame n st st'"
    using frame_deal_trial [OF Suc.prems, of kc nopp bd] snd_run_trial [of pc kc nopp bd counters st] rt
    by simp
  show ?case
  proof (cases r)
    case (Inl e)
    then show ?thesis using rt f by simp
  next
    case (Inr c')
    from f Suc.prems have "n \<le> nxt st'" by (simp add: frame_def)
    then have "frame n st' (snd (sim_loop k pc kc nopp bd c' st'))" by (rule Suc.IH)
    with f have "frame n st (snd (sim_loop k pc kc nopp bd c' st'))" by (rule frame_trans)
    then show ?thesis using rt Inr by simp
  qed
qed

lemma frame_build_base_deck:
  "n \<le> nxt st \<Longrightarrow> frame n st (snd (build_base_deck pc kc deck st))"
proof -
  assume n: "n \<le> nxt st"
  let ?u = "nxt st"
  let ?st1 = "snd (new_list [] st)"
  let ?st2 = "fold (list_append ?u) (heap ?st1 pc) ?st1"
  let ?st3 = "fold (list_append ?u) (heap ?st2 kc) ?st2"
  let ?b = "nxt ?st3"
  let ?st4 = "snd (new_list [] ?st3)"
  let ?st5 = "fold (\<lambda>c s. if c \<notin> set (heap s ?u) then list_append ?b c s else s) (heap ?st4 deck) ?st4"
  have f1: "frame n st ?st1" using n by (rule frame_new_list)
  have f2: "frame n ?st1 ?st2" using n by (rule frame_fold_append)
  have f3: "frame n ?st2 ?st3" using n by (rule frame_fold_append)
  have f13: "frame n st ?st3" using f1 f2 f3 frame_trans by blast
  then have nb: "n \<le> ?b" using n by (simp add: frame_def)
  then have f4: "frame n ?st3 ?st4" by (rule frame_new_list)
  have f5: "frame n ?st4 ?st5" using nb by (rule frame_fold_filter)
  have "frame n st ?st5" using f13 f4 f5 frame_trans by blast
  moreover have "snd (build_base_deck pc kc deck st) = ?st5"
    unfolding build_base_deck_def Let_def split_beta new_list_addr by simp
  ultimately show ?thesis by simp
qed

lemma snd_simulate:
  "snd (simulate_win_probability pc kc nopp deck sims st) =
     snd (sim_loop (nat sims) pc kc nopp (fst (build_base_deck pc kc deck st)) (0, 0, 0)
            (snd (build_base_deck pc kc deck st)))"
  by (auto simp: simulate_win_probability_def Let_def split: prod.splits sum.splits)

lemma frame_simulate:
  "frame (nxt st) st (snd (simulate_win_probability pc kc nopp deck sims st))"
proof -
  let ?st5 = "snd (build_base_deck pc kc deck st)"
  have f: "frame (nxt st) st ?st5" by (rule frame_build_base_deck) simp
  then have "nxt st \<le> nxt ?st5" by (simp add: frame_def)
  then have "frame (nxt st) ?st5 (snd (sim_loop (nat sims) pc kc nopp (fst (build_base_deck pc kc deck st)) (0, 0, 0) ?st5))"
    by (rule frame_sim_loop)
  with f show ?thesis unfolding snd_simulate by (rule frame_trans)
qed

lemma base_deck_allocated:
  "fst (build_base_deck pc kc deck st) < nxt (snd (build_base_deck pc kc deck st))"
proof -
  let ?u = "nxt st"
  let ?st1 = "snd (new_list [] st)"
  let ?st2 = "fold (list_append ?u) (heap ?st1 pc) ?st1"
  let ?st3 = "fold (list_append ?u) (heap ?st2 kc) ?st2"
  let ?b = "nxt ?st3"
  let ?st4 = "snd (new_list [] ?st3)"
  let ?st5 = "fold (\<lambda>c s. if c \<notin> set (heap s ?u) then list_append ?b c s else s) (heap ?st4 deck) ?st4"
  have "frame 0 ?st4 ?st5" by (rule frame_fold_filter) simp
  then have "nxt ?st4 \<le> nxt ?st5" by (simp add: frame_def)
  moreover have "nxt ?st4 = Suc ?b" by (simp add: new_list_def)
  moreover have "snd (build_base_deck pc kc deck st) = ?st5"
    unfolding build_base_deck_def Let_def split_beta new_list_addr by simp
  moreover have "fst (build_base_deck pc kc deck st) = ?b"
    unfolding build_base_deck_def Let_def split_beta new_list_addr by simp
  ultimately show ?thesis by simp
qed

lemma compare_opponents_spec:
  "\<exists>os. map (\<lambda>oh. rank_7cards (oh @ fc)) ohs = map Inr os
       \<and> compare_opponents ohs fc pr (bc, sc)
           = Inr (bc + int (length (filter (\<lambda>opp_rank. opp_rank > pr) os)),
                  sc + int (length (filter (\<lambda>opp_rank. opp_rank = pr) os)))"
proof (induction ohs arbitrary: bc sc)
  case Nil
  then show ?case by simp
next
  case (Cons oh ohs)
  obtain r where r: "rank_7cards (oh @ fc) = Inr r" using rank_7cards_total by blast
  define bc' where "bc' = (if r > pr then bc + 1 else bc)"
  define sc' where "sc' = (if r > pr then sc else if r = pr then sc + 1 else sc)"
  from Cons.IH [of bc' sc'] obtain os where os:
    "map (\<lambda>oh. rank_7cards (oh @ fc)) ohs = map Inr os"
    "compare_opponents ohs fc pr (bc', sc')
           = Inr (bc' + int (length (filter (\<lambda>opp_rank. opp_rank > pr) os)),
                  sc' + int (length (filter (\<lambda>opp_rank. opp_rank = pr) os)))" by blast
  have "compare_opponents (oh # ohs) fc pr (bc, sc) = compare_opponents ohs fc pr (bc', sc')"
    using r by (simp add: bc'_def sc'_def)
  also have "\<dots> = Inr (bc + int (length (filter (\<lambda>opp_rank. opp_rank > pr) (r # os))),
                  sc + int (length (filter (\<lambda>opp_rank. opp_rank = pr) (r # os))))"
    unfolding os(2) by (auto simp: bc'_def sc'_def)
  finally have "compare_opponents (oh # ohs) fc pr (bc, sc)
      = Inr (bc + int (length (filter (\<lambda>opp_rank. opp_rank > pr) (r # os))),
             sc + int (length (filter (\<lambda>opp_rank. opp_rank = pr) (r # os))))" .
  moreover have "map (\<lambda>oh. rank_7cards (oh @ fc)) (oh # ohs) = map Inr (r # os)"
    using r os(1) by simp
  ultimately show ?case by blast
qed

lemma showdown_spec:
  "\<exists>h os. rank_7cards (pcs @ fc) = Inr h
       \<and> map (\<lambda>oh. rank_7cards (oh @ fc)) ohs = map Inr os
       \<and> showdown pcs fc ohs (wins, ties, n)
           = Inr (if \<exists>opp\<in>set os. opp > h then (wins, ties, n + 1)
                  else if \<exists>opp\<in>set os. opp = h then (wins, ties + 1, n + 1)
                  else (wins + 1, ties, n + 1))"
proof -
  obtain h where h: "rank_7cards (pcs @ fc) = Inr h" using rank_7cards_total by blast
  from compare_opponents_spec [of fc ohs h 0 0] obtain os where os:
    "map (\<lambda>oh. rank_7cards (oh @ fc)) ohs = map Inr os"
    "compare_opponents ohs fc h (0, 0)
           = Inr (0 + int (length (filter (\<lambda>opp_rank. opp_rank > h) os)),
                  0 + int (length (filter (\<lambda>opp_rank. opp_rank = h) os)))" by blast
  have b: "(int (length (filter (\<lambda>opp_rank. opp_rank > h) os)) = 0) = (\<not> (\<exists>opp\<in>set os. opp > h))"
    by (auto simp: filter_empty_conv)
  have s: "(int (length (filter (\<lambda>opp_rank. opp_rank = h) os)) = 0) = (\<not> (\<exists>opp\<in>set os. opp = h))"
    by (auto simp: filter_empty_conv)
  have "showdown pcs fc ohs (wins, ties, n)
           = Inr (if \<exists>opp\<in>set os. opp > h then (wins, ties, n + 1)
                  else if \<exists>opp\<in>set os. opp = h then (wins, ties + 1, n + 1)
                  else (wins + 1, ties, n + 1))"
    unfolding showdown_def Let_def using h os(2) b s by simp
  with h os(1) show ?thesis by blast
qed

lemma run_trial_spec:
  "\<exists>fc ohs st' h os.
       deal_trial kc nopp bd st = (Inr (fc, ohs), st')
     \<and> rank_7cards (heap st' pc @ fc) = Inr h
     \<and> map (\<lambda>oh. rank_7cards (oh @ fc)) ohs = map Inr os
     \<and> run_trial pc kc nopp bd (wins, ties, n) st
         = (Inr (if \<exists>opp\<in>set os. opp > h then (wins, ties, n + 1)
                 else if \<exists>opp\<in>set os. opp = h then (wins, ties + 1, n + 1)
                 else (wins + 1, ties, n + 1)), st')"
proof -
  obtain fc ohs st' where d: "deal_trial kc nopp bd st = (Inr (fc, ohs), st')"
    using deal_trial_ok by blast
  from showdown_spec [of "heap st' pc" fc ohs wins ties n] obtain h os where
    "rank_7cards (heap st' pc @ fc) = Inr h"
    "map (\<lambda>oh. rank_7cards (oh @ fc)) ohs = map Inr os"
    "showdown (heap st' pc) fc ohs (wins, ties, n)
           = Inr (if \<exists>opp\<in>set os. opp > h then (wins, ties, n + 1)
                  else if \<exists>opp\<in>set os. opp = h then (wins, ties + 1, n + 1)
                  else (wins + 1, ties, n + 1))" by blast
  then show ?thesis using d by (simp add: run_trial_def)
qed

lemma run_trial_counts:
  "\<exists>w' t' st'. run_trial pc kc nopp bd (wins, ties, n) st = (Inr (w', t', n + 1), st')
     \<and> wins \<le> w' \<and> ties \<le> t' \<and> w' + t' \<le> wins + ties + 1"
proof -
  from run_trial_spec [of kc nopp bd st pc wins ties n] obtain st' and h :: hand_rank and os where
    "run_trial pc kc nopp bd (wins, ties, n) st
         = (Inr (if \<exists>opp\<in>set os. opp > h then (wins, ties, n + 1)
                 else if \<exists>opp\<in>set os. opp = h then (wins, ties + 1, n + 1)
                 else (wins + 1, ties, n + 1)), st')" by blast
  then show ?thesis by (cases "\<exists>opp\<in>set os. opp > h"; cases "\<exists>opp\<in>set os. opp = h") simp_all
qed

lemma sim_loop_counts:
  "\<exists>w' t' st'. sim_loop k pc kc nopp bd (wins, ties, n) st = (Inr (w', t', n + int k), st')
     \<and> wins \<le> w' \<and> ties \<le> t' \<and> w' + t' \<le> wins + ties + int k"
proof (induction k arbitrary: wins ties n st)
  case 0
  then show ?case by simp
next
  case (Suc k)
  from run_trial_counts [of pc kc nopp bd wins ties n st] obtain w1 t1 st1 where
    r: "run_trial pc kc nopp bd (wins, ties, n) st = (Inr (w1, t1, n + 1), st1)"
    and b: "wins \<le> w1" "ties \<le> t1" "w1 + t1 \<le> wins + ties + 1" by blast
  from Suc.IH [of w1 t1 "n + 1" st1] obtain w' t' st' where
    s: "sim_loop k pc kc nopp bd (w1, t1, n + 1) st1 = (Inr (w', t', n + 1 + int k), st')"
    and b': "w1 \<le> w'" "t1 \<le> t'" "w' + t' \<le> w1 + t1 + int k" by blast
  have "sim_loop (Suc k) pc kc nopp bd (wins, ties, n) st = (Inr (w', t', n + int (Suc k)), st')"
    using r s by (simp add: add.assoc)
  moreover have "wins \<le> w'" "ties \<le> t'" "w' + t' \<le> wins + ties + int (Suc k)"
    using b b' by simp_all
  ultimately show ?case by blast
qed

lemma simulate_result:
  assumes "0 < sims"
  shows "\<exists>bd st5 wins ties st'.
       build_base_deck pc kc deck st = (bd, st5)
     \<and> sim_loop (nat sims) pc kc nopp bd (0, 0, 0) st5 = (Inr (wins, ties, sims), st')
     \<and> simulate_win_probability pc kc nopp deck sims st
         = (Inr (real_of_int (wins + ties) / real_of_int sims), st')
     \<and> 0 \<le> wins \<and> 0 \<le> ties \<and> wins + ties \<le> sims"
proof -
  obtain bd st5 where bb: "build_base_deck pc kc deck st = (bd, st5)"
    by (cases "build_base_deck pc kc deck st")
  from sim_loop_counts [of "nat sims" pc kc nopp bd 0 0 0 st5] assms obtain wins ties st' where
    s: "sim_loop (nat sims) pc kc nopp bd (0, 0, 0) st5 = (Inr (wins, ties, sims), st')"
    and b: "0 \<le> wins" "0 \<le> ties" "wins + ties \<le> sims" by auto
  have "simulate_win_probability pc kc nopp deck sims st
         = (Inr (real_of_int (wins + ties) / real_of_int sims), st')"
    using bb s assms by (simp add: simulate_win_probability_def)
  with bb s b show ?thesis by blast
qed



text \<open>
  No check of the input: three equal cards are ranked \<open>(0,)\<close> by \<open>rank_7cards\<close>, six cards
  are ranked by \<open>rank_5cards\<close>, and a simulation over an empty deck returns 1.
\<close>

theorem no_validation_counterexample:
  "rank_7cards [(2, 0), (2, 0), (2, 0)] = Inr [0]
   \<and> rank_5cards [(9, 1), (6, 0), (5, 0), (4, 0), (3, 0), (2, 0)] = Inr [5, 6]
   \<and> fst (simulate_win_probability 0 1 2 2 3
         (snd (new_list [] (snd (new_list [] (snd (new_list [(14, 0), (13, 0)] initial_store))))))) = Inr 1"
proof -
  have "rank_7cards [(2, 0), (2, 0), (2, 0)] = Inr [0]" by code_simp
  moreover have "rank_5cards [(9, 1), (6, 0), (5, 0), (4, 0), (3, 0), (2, 0)] = Inr [5, 6]"
    by code_simp
  moreover have "fst (simulate_win_probability 0 1 2 2 3
         (snd (new_list [] (snd (new_list [] (snd (new_list [(14, 0), (13, 0)] initial_store))))))) = Inr 1"
    by code_simp
  ultimately show ?thesis by simp
qed

text \<open>
  Claim C5, as the code has it. The evaluator and the simulator do not validate their
  input. \<open>rank_7cards\<close> returns a tuple for every list of cards, \<open>(0,)\<close> for fewer than five
  cards; \<open>rank_5cards\<close> returns a tuple for every list of at least five cards, duplicates
  included; \<open>simulate_win_probability\<close> with a positive number of trials returns a
  probability for every deck, however small.
\<close>

theorem no_input_validation:
  "(\<exists>m. rank_7cards cards = Inr m)
   \<and> (length few < 5 \<longrightarrow> rank_7cards few = Inr [0])
   \<and> (5 \<le> length many \<longrightarrow> (\<exists>r. rank_5cards many = Inr r))
   \<and> (0 < sims \<longrightarrow>
        (\<exists>p. fst (simulate_win_probability player_cards known_community num_opponents deck sims st)
                = Inr p))"
proof -
  have "\<exists>m. rank_7cards cards = Inr m" using rank_7cards_total by blast
  moreover have "rank_7cards few = Inr [0]" if "length few < 5"
    using that by (rule rank_7cards_short)
  moreover have "\<exists>r. rank_5cards many = Inr r" if "5 \<le> length many"
    using rank_5cards_total [OF that] by blast
  moreover have "\<exists>p. fst (simulate_win_probability player_cards known_community num_opponents deck sims st) = Inr p"
    if "0 < sims"
  proof -
    from simulate_result [OF that, of player_cards known_community deck st num_opponents]
    obtain wins ties st' where
      "simulate_win_probability player_cards known_community num_opponents deck sims st
         = (Inr (real_of_int (wins + ties) / real_of_int sims), st')" by blast
    then have "fst (simulate_win_probability player_cards known_community num_opponents deck sims st)
         = Inr (real_of_int (wins + ties) / real_of_int sims)" by (simp only: fst_conv)
    then show ?thesis by blast
  qed
  ultimately show ?thesis by blast
qed

text \<open>
  Two cards, six equal cards, and nine opponents over an empty deck.
\<close>

theorem no_input_validation_witness:
  "rank_7cards [(2, 0), (3, 0)] = Inr [0]
   \<and> (\<exists>r. rank_5cards [(2, 0), (2, 0), (2, 0), (2, 0), (2, 0), (2, 0)] = Inr r)
   \<and> (\<exists>p. fst (simulate_win_probability 0 1 9 2 1
         (snd (new_list [] (snd (new_list [] (snd (new_list [(14, 0), (13, 0)] initial_store))))))) = Inr p)"
  using no_input_validation [of "[]" "[(2, 0), (3, 0)]"
      "[(2, 0), (2, 0), (2, 0), (2, 0), (2, 0), (2, 0)]" 1 0 1 9 2
      "snd (new_list [] (snd (new_list [] (snd (new_list [(14, 0), (13, 0)] initial_store)))))"]
  by simp

text \<open>
  Claim C10. After \<open>simulate_win_probability\<close> the list objects of the hole cards, of the
  known community cards and of the deck have the contents they had before the call, and
  so has every list object that existed before the call. The trial loop does not change
  \<open>base_deck\<close> either: every trial shuffles a copy.
\<close>

theorem simulate_preserves_inputs:
  assumes "player_cards < nxt st" and "known_community < nxt st" and "deck < nxt st"
  shows "heap (snd (simulate_win_probability player_cards known_community num_opponents deck sims st)) player_cards
           = heap st player_cards
       \<and> heap (snd (simulate_win_probability player_cards known_community num_opponents deck sims st)) known_community
           = heap st known_community
       \<and> heap (snd (simulate_win_probability player_cards known_community num_opponents deck sims st)) deck
           = heap st deck
       \<and> (\<forall>a<nxt st. heap (snd (simulate_win_probability player_cards known_community num_opponents deck sims st)) a
             = heap st a)
       \<and> heap (snd (simulate_win_probability player_cards known_community num_opponents deck sims st))
              (fst (build_base_deck player_cards known_community deck st))
           = heap (snd (build_base_deck player_cards known_community deck st))
              (fst (build_base_deck player_cards known_community deck st))"
proof -
  let ?bd = "fst (build_base_deck player_cards known_community deck st)"
  let ?st5 = "snd (build_base_deck player_cards known_community deck st)"
  have "frame (nxt ?st5) ?st5
          (snd (sim_loop (nat sims) player_cards known_community num_opponents ?bd (0, 0, 0) ?st5))"
    by (rule frame_sim_loop) simp
  then have "heap (snd (simulate_win_probability player_cards known_community num_opponents deck sims st)) ?bd
           = heap ?st5 ?bd"
    using base_deck_allocated [of player_cards known_community deck st]
    by (simp add: frame_def snd_simulate)
  then show ?thesis
    using frame_simulate [of st player_cards known_community num_opponents deck sims] assms
    by (simp add: frame_def)
qed

text \<open>
  The nine-card deck after three trials.
\<close>

theorem simulate_preserves_inputs_witness:
  "heap (snd (simulate_win_probability 0 1 2 2 3
       (snd (new_list [(2, 1), (3, 1), (4, 2), (5, 3), (9, 0), (9, 1), (12, 2), (7, 3), (7, 0)]
          (snd (new_list [] (snd (new_list [(14, 0), (13, 0)] initial_store)))))))) 2
     = [(2, 1), (3, 1), (4, 2), (5, 3), (9, 0), (9, 1), (12, 2), (7, 3), (7, 0)]"
  using simulate_preserves_inputs [of 0
       "snd (new_list [(2, 1), (3, 1), (4, 2), (5, 3), (9, 0), (9, 1), (12, 2), (7, 3), (7, 0)]
          (snd (new_list [] (snd (new_list [(14, 0), (13, 0)] initial_store)))))" 1 2 2 3]
  by (simp add: new_list_def initial_store_def)

end
